theory Spec2Isabelle
  imports Main
begin

section \<open>Data model of \<open>scripts/orchestrate.py\<close>\<close>

text \<open>
  The dataclass \<open>Vote\<close>: one model's vote. All five fields are Python strings.
\<close>

record Vote =
  model :: string
  choice :: string
  confidence :: string
  reasoning :: string
  concerns :: string

text \<open>
  Python dictionaries keep their keys in insertion order, and the code iterates over
  them (\<open>tally.items()\<close>), so a dictionary is an association list. A proposal is the
  dictionary of its six text fields, the proposal set maps labels to proposals, and a
  tally maps labels to Python integers.
\<close>

type_synonym proposal = "(string \<times> string) list"
type_synonym proposals = "(string \<times> proposal) list"
type_synonym tally = "(string \<times> int) list"

text \<open>
  The dataclass \<open>Round\<close>. The field names carry the prefix \<open>round_\<close> so that
  \<open>proposals\<close>, \<open>votes\<close> and \<open>tally\<close> stay free for variables.
\<close>

record Round =
  round_iteration :: nat
  round_proposals :: proposals
  round_votes :: "Vote list"
  round_tally :: tally
  round_consensus :: "string option"

text \<open>
  The attributes that \<open>ConsensusOrchestrator.__init__\<close> sets. (\<open>context\<close> is a reserved
  word of the theory language, hence \<open>context_text\<close>.)
\<close>

record ConsensusOrchestrator =
  problem :: string
  context_text :: string
  max_iterations :: int
  rounds :: "Round list"
  human_decision :: "string option"
  final_solution :: "string option"

definition init_orchestrator :: "string \<Rightarrow> string \<Rightarrow> int \<Rightarrow> ConsensusOrchestrator" where
  "init_orchestrator p c n =
     \<lparr>problem = p, context_text = c, max_iterations = n, rounds = [],
      human_decision = None, final_solution = None\<rparr>"

text \<open>
  The dictionary that \<open>orchestrate\<close> returns has one of two shapes, told apart by its
  \<open>"status"\<close> entry:
  \<^item> \<open>Consensus iteration winner votes\<close> for
    \<open>{"status": "consensus", "iteration": _, "winner": _, "votes": _}\<close>;
  \<^item> \<open>Escalated iterations final_tally proposals awaiting_human_decision\<close> for
    \<open>{"status": "escalated", "iterations": _, "final_tally": _, "proposals": _,
    "awaiting_human_decision": _}\<close>.
\<close>

datatype run_result =
  Consensus nat string "(string \<times> string) list list"
| Escalated int tally proposals bool

fun status :: "run_result \<Rightarrow> string" where
  "status (Consensus i w vs) = ''consensus''"
| "status (Escalated n t ps a) = ''escalated''"

text \<open>
  Reading a local variable that no assignment has reached raises
  \<open>UnboundLocalError\<close> in Python.
\<close>

datatype error = UnboundLocalError

section \<open>Dictionary operations\<close>

text \<open>
  \<open>d[k] = v\<close>: an existing key keeps its position and gets the new value, a new key is
  appended. \<open>d.get(k, default)\<close>: the value of the key, or the default.
\<close>

fun dict_set :: "('k \<times> 'v) list \<Rightarrow> 'k \<Rightarrow> 'v \<Rightarrow> ('k \<times> 'v) list" where
  "dict_set [] k v = [(k, v)]"
| "dict_set ((k', v') # kvs) k v =
     (if k' = k then (k, v) # kvs else (k', v') # dict_set kvs k v)"

definition dict_get :: "('k \<times> 'v) list \<Rightarrow> 'k \<Rightarrow> 'v \<Rightarrow> 'v" where
  "dict_get d k dflt = (case map_of d k of None \<Rightarrow> dflt | Some v \<Rightarrow> v)"

definition keys :: "('k \<times> 'v) list \<Rightarrow> 'k list" where
  "keys d = map fst d"

section \<open>Formatting of round indices\<close>

text \<open>
  \<open>f"Alt_{iteration}"\<close> formats the round index with \<open>str\<close>: decimal digits, most
  significant first, no leading zero. Round indices come from \<open>range\<close> and are never
  negative.
\<close>

definition digit_char :: "nat \<Rightarrow> char" where
  "digit_char d = ''0123456789'' ! d"

fun str_nat :: "nat \<Rightarrow> string" where
  "str_nat n = (if n < 10 then [digit_char n] else str_nat (n div 10) @ [digit_char (n mod 10)])"

declare str_nat.simps [simp del]

definition alt_name :: "nat \<Rightarrow> string" where
  "alt_name iteration = ''Alt_'' @ str_nat iteration"

definition alt_proposal :: "nat \<Rightarrow> proposal" where
  "alt_proposal iteration =
     [(''name'', ''Alternative '' @ str_nat iteration),
      (''description'', ''...''),
      (''rationale'', ''...''),
      (''tradeoffs'', ''...''),
      (''complexity'', ''Medium''),
      (''risks'', ''...'')]"

section \<open>The phases\<close>

text \<open>\<open>phase1_opus_proposes\<close> returns a fixed dictionary of three proposals.\<close>

definition phase1_opus_proposes :: proposals where
  "phase1_opus_proposes =
     [(''A'', [(''name'', ''Approach A''), (''description'', ''...''), (''rationale'', ''...''),
               (''tradeoffs'', ''...''), (''complexity'', ''Medium''), (''risks'', ''...'')]),
      (''B'', [(''name'', ''Approach B''), (''description'', ''...''), (''rationale'', ''...''),
               (''tradeoffs'', ''...''), (''complexity'', ''Low''), (''risks'', ''...'')]),
      (''C'', [(''name'', ''Approach C''), (''description'', ''...''), (''rationale'', ''...''),
               (''tradeoffs'', ''...''), (''complexity'', ''High''), (''risks'', ''...'')])]"

text \<open>
  \<open>phase2_vote\<close> builds one \<open>Vote\<close> for each of \<open>"Gemini"\<close>, \<open>"Codex"\<close> and
  \<open>"Opus"\<close>, in this order. The source fills the four answer fields with placeholders
  where the reviewing model is to be called; the model takes that answer as a parameter:
  an \<open>agent\<close> gives, for a model name, the proposal set and the round index, the
  choice, confidence, reasoning and concerns of the vote. \<open>placeholder_agent\<close> is the
  answer written in the source.
\<close>

type_synonym agent = "string \<Rightarrow> proposals \<Rightarrow> nat \<Rightarrow> string \<times> string \<times> string \<times> string"

definition voting_models :: "string list" where
  "voting_models = [''Gemini'', ''Codex'', ''Opus'']"

definition cast_vote :: "agent \<Rightarrow> proposals \<Rightarrow> nat \<Rightarrow> string \<Rightarrow> Vote" where
  "cast_vote ask props iteration m =
     (case ask m props iteration of
        (c, conf, r, cs) \<Rightarrow>
          \<lparr>model = m, choice = c, confidence = conf, reasoning = r, concerns = cs\<rparr>)"

definition phase2_vote :: "agent \<Rightarrow> proposals \<Rightarrow> nat \<Rightarrow> Vote list" where
  "phase2_vote ask props iteration = map (cast_vote ask props iteration) voting_models"

definition placeholder_agent :: agent where
  "placeholder_agent m props iteration = (''A'', ''High'', ''...'', ''...'')"

text \<open>
  \<open>tally_votes\<close>: starting from the empty dictionary, each vote in turn sets
  \<open>tally[vote.choice] = tally.get(vote.choice, 0) + 1\<close>.
\<close>

fun tally_loop :: "Vote list \<Rightarrow> tally \<Rightarrow> tally" where
  "tally_loop [] t = t"
| "tally_loop (vote # votes) t =
     tally_loop votes (dict_set t (choice vote) (dict_get t (choice vote) 0 + 1))"

definition tally_votes :: "Vote list \<Rightarrow> tally" where
  "tally_votes votes = tally_loop votes []"

text \<open>
  \<open>check_consensus\<close>: the first entry of the tally, in dictionary order, whose count is
  \<open>3\<close>; \<open>None\<close> when there is none.
\<close>

fun check_consensus :: "tally \<Rightarrow> string option" where
  "check_consensus [] = None"
| "check_consensus ((proposal, count) # rest) =
     (if count = 3 then Some proposal else check_consensus rest)"

text \<open>
  \<open>phase3_dissent\<close>: the labels whose count is \<open>1\<close>; with none of them the proposal set
  is returned as it is, otherwise \<open>proposals[alt_name]\<close> is assigned the new alternative.
  The dictionary is updated in place and returned; the model returns the updated value.
\<close>

definition phase3_dissent :: "proposals \<Rightarrow> tally \<Rightarrow> nat \<Rightarrow> proposals" where
  "phase3_dissent props t iteration =
     (let minority_votes = map fst (filter (\<lambda>(k, v). v = 1) t)
      in if minority_votes = [] then props
         else dict_set props (alt_name iteration) (alt_proposal iteration))"

section \<open>The iteration loop\<close>

text \<open>
  \<open>if winner:\<close> tests the truth value of an optional string: \<open>None\<close> and the empty
  string are both false.
\<close>

fun truthy :: "string option \<Rightarrow> bool" where
  "truthy None = False"
| "truthy (Some s) = (s \<noteq> [])"

text \<open>\<open>dataclasses.asdict\<close> of a vote: its fields in declaration order.\<close>

definition asdict :: "Vote \<Rightarrow> (string \<times> string) list" where
  "asdict v =
     [(''model'', model v), (''choice'', choice v), (''confidence'', confidence v),
      (''reasoning'', reasoning v), (''concerns'', concerns v)]"

text \<open>
  The \<open>for\<close> loop of \<open>orchestrate\<close> over the indices still to come, with the local
  variables \<open>proposals\<close> and \<open>tally\<close> (\<open>None\<close> while unassigned) and the object
  \<open>self\<close> as state. When the indices are used up, the escalation branch reads
  \<open>tally\<close>.
\<close>

fun iteration_loop ::
  "agent \<Rightarrow> ConsensusOrchestrator \<Rightarrow> nat list \<Rightarrow> proposals \<Rightarrow> tally option
     \<Rightarrow> (error + run_result) \<times> ConsensusOrchestrator" where
  "iteration_loop ask self [] props tally_var =
     (case tally_var of
        None \<Rightarrow> (Inl UnboundLocalError, self)
      | Some t \<Rightarrow> (Inr (Escalated (max_iterations self) t props True), self))"
| "iteration_loop ask self (iteration # rest) props tally_var =
     (let votes = phase2_vote ask props iteration;
          t = tally_votes votes;
          winner = check_consensus t
      in if truthy winner
         then (Inr (Consensus (iteration + 1) (the winner) (map asdict votes)),
               self\<lparr>final_solution := winner\<rparr>)
         else iteration_loop ask self rest
                (if int iteration < max_iterations self - 1
                 then phase3_dissent props t iteration else props)
                (Some t))"

definition orchestrate ::
  "agent \<Rightarrow> ConsensusOrchestrator \<Rightarrow> (error + run_result) \<times> ConsensusOrchestrator" where
  "orchestrate ask self =
     iteration_loop ask self [0 ..< nat (max_iterations self)] phase1_opus_proposes None"

text \<open>
  The rounds that the loop goes through, each with its index, the proposal set it votes
  on, its votes, its tally and the result of \<open>check_consensus\<close>. The source keeps no
  such list (it never appends to \<open>self.rounds\<close>); this one is for stating properties of
  every round.
\<close>

fun rounds_of :: "agent \<Rightarrow> int \<Rightarrow> nat list \<Rightarrow> proposals \<Rightarrow> Round list" where
  "rounds_of ask n [] props = []"
| "rounds_of ask n (iteration # rest) props =
     (let votes = phase2_vote ask props iteration;
          t = tally_votes votes;
          winner = check_consensus t;
          r = \<lparr>round_iteration = iteration, round_proposals = props, round_votes = votes,
               round_tally = t, round_consensus = winner\<rparr>
      in if truthy winner then [r]
         else r # rounds_of ask n rest
                    (if int iteration < n - 1 then phase3_dissent props t iteration else props))"

definition run_rounds :: "agent \<Rightarrow> ConsensusOrchestrator \<Rightarrow> Round list" where
  "run_rounds ask self =
     rounds_of ask (max_iterations self) [0 ..< nat (max_iterations self)] phase1_opus_proposes"

section \<open>The command line\<close>

text \<open>
  \<open>main\<close>: with fewer than two entries in \<open>sys.argv\<close> it prints the usage line and
  calls \<open>sys.exit(1)\<close>. Otherwise it runs an orchestrator with the default of five
  iterations and prints the result; the process then ends with status \<open>0\<close>, or with
  status \<open>1\<close> when an exception escapes.
\<close>

definition main :: "agent \<Rightarrow> string list \<Rightarrow> nat" where
  "main ask argv =
     (if length argv < 2 then 1
      else
        let p = argv ! 1;
            c = (if length argv > 2 then argv ! 2 else '''');
            orchestrator = init_orchestrator p c 5
        in case fst (orchestrate ask orchestrator) of
             Inl e \<Rightarrow> 1
           | Inr result \<Rightarrow> 0)"

section \<open>The tally\<close>

text \<open>The number of votes of a list that choose a given label.\<close>

definition votes_for :: "Vote list \<Rightarrow> string \<Rightarrow> int" where
  "votes_for votes l = int (length (filter (\<lambda>v. choice v = l) votes))"

section \<open>Rounds of a run, by index\<close>

text \<open>
  The proposal set and the tally of round \<open>j\<close> of a run, and the last round of a run.
  They are used below the length of the list of rounds, and for a list that is not empty.
\<close>

abbreviation proposals_at :: "agent \<Rightarrow> ConsensusOrchestrator \<Rightarrow> nat \<Rightarrow> proposals" where
  "proposals_at ask self j \<equiv> round_proposals (run_rounds ask self ! j)"

abbreviation tally_at :: "agent \<Rightarrow> ConsensusOrchestrator \<Rightarrow> nat \<Rightarrow> tally" where
  "tally_at ask self j \<equiv> round_tally (run_rounds ask self ! j)"

abbreviation last_round :: "agent \<Rightarrow> ConsensusOrchestrator \<Rightarrow> Round" where
  "last_round ask self \<equiv> last (run_rounds ask self)"

section \<open>Scripted agents\<close>

text \<open>
  An agent that answers from a script: for each round the choices of Gemini, Codex and
  Opus, in this order, with the other answer fields as in the source's placeholder.
\<close>

definition scripted :: "(nat \<Rightarrow> string \<times> string \<times> string) \<Rightarrow> agent" where
  "scripted script m props iteration =
     (case script iteration of
        (g, c, o') \<Rightarrow>
          (if m = ''Gemini'' then g else if m = ''Codex'' then c else o',
           ''High'', ''...'', ''...''))"

definition split_then_majority :: agent where
  "split_then_majority =
     scripted (\<lambda>i. if i = 0 then (''A'', ''B'', ''C'') else (''A'', ''A'', ''B''))"

definition majority_agent :: agent where
  "majority_agent = scripted (\<lambda>i. (''A'', ''A'', ''B''))"

definition unanimous_b :: agent where
  "unanimous_b = scripted (\<lambda>i. (''B'', ''B'', ''B''))"

definition dissent_then_alt :: agent where
  "dissent_then_alt =
     scripted (\<lambda>i. if i = 0 then (''A'', ''A'', ''B'') else (''Alt_0'', ''Alt_0'', ''Alt_0''))"

definition unknown_label_agent :: agent where
  "unknown_label_agent = scripted (\<lambda>i. (''Z'', ''Z'', ''Z''))"

section \<open>Dictionary lemmas\<close>

lemma map_of_dict_set: "map_of (dict_set d k v) = (map_of d)(k \<mapsto> v)"
  by (induction d k v rule: dict_set.induct) (auto simp: fun_eq_iff)

lemma keys_dict_set: "set (keys (dict_set d k v)) = insert k (set (keys d))"
  by (induction d k v rule: dict_set.induct) (auto simp: keys_def)

lemma distinct_dict_set: "distinct (keys d) \<Longrightarrow> distinct (keys (dict_set d k v))"
proof (induction d k v rule: dict_set.induct)
  case (1 k v)
  then show ?case by (simp add: keys_def)
next
  case (2 k' v' kvs k v)
  then show ?case
    using keys_dict_set [of kvs k v] by (auto simp: keys_def)
qed

lemma dict_set_fresh: "k \<notin> set (keys d) \<Longrightarrow> dict_set d k v = d @ [(k, v)]"
  by (induction d k v rule: dict_set.induct) (auto simp: keys_def)

section \<open>Tally lemmas\<close>

lemma sum_dict_set_bump:
  "sum_list (map snd (dict_set t k (dict_get t k 0 + 1))) = sum_list (map snd t) + (1::int)"
proof (induction t)
  case Nil
  then show ?case by (simp add: dict_get_def)
next
  case (Cons p t)
  obtain k' v' where p: "p = (k', v')" by (cases p)
  show ?case
  proof (cases "k' = k")
    case True
    then show ?thesis by (simp add: p dict_get_def)
  next
    case False
    have "dict_get (p # t) k 0 = dict_get t k 0"
      using False by (simp add: p dict_get_def)
    then show ?thesis using False Cons.IH by (simp add: p)
  qed
qed

lemma sum_tally_loop:
  "sum_list (map snd (tally_loop votes t)) = sum_list (map snd t) + int (length votes)"
  by (induction votes arbitrary: t) (simp_all add: sum_dict_set_bump)

lemma sum_tally_votes: "sum_list (map snd (tally_votes votes)) = int (length votes)"
  by (simp add: tally_votes_def sum_tally_loop)

lemma length_phase2_vote: "length (phase2_vote ask props i) = 3"
  by (simp add: phase2_vote_def voting_models_def)

lemma map_of_tally_loop:
  "map_of (tally_loop votes t) l =
     (if votes_for votes l = 0 then map_of t l
      else Some (dict_get t l 0 + votes_for votes l))"
proof (induction votes arbitrary: t)
  case Nil
  then show ?case by (simp add: votes_for_def)
next
  case (Cons v votes)
  show ?case
    by (simp add: Cons.IH map_of_dict_set votes_for_def dict_get_def)
qed

lemma map_of_tally_votes:
  "map_of (tally_votes votes) l =
     (if votes_for votes l = 0 then None else Some (votes_for votes l))"
  by (simp add: tally_votes_def map_of_tally_loop dict_get_def)

lemma distinct_tally_loop: "distinct (keys t) \<Longrightarrow> distinct (keys (tally_loop votes t))"
  by (induction votes arbitrary: t) (simp_all add: distinct_dict_set)

lemma distinct_tally_votes: "distinct (keys (tally_votes votes))"
  unfolding tally_votes_def by (rule distinct_tally_loop) (simp add: keys_def)

section \<open>Alternative labels\<close>

lemma digit_char_inj: "a < 10 \<Longrightarrow> b < 10 \<Longrightarrow> digit_char a = digit_char b \<Longrightarrow> a = b"
proof -
  assume a: "a < 10" and b: "b < 10" and e: "digit_char a = digit_char b"
  have A: "a \<in> {0,1,2,3,4,5,6,7,8,9}" using a by auto
  have B: "b \<in> {0,1,2,3,4,5,6,7,8,9}" using b by auto
  show ?thesis using A B e by (auto simp: digit_char_def)
qed

lemma str_nat_nonempty: "str_nat n \<noteq> []"
  by (subst str_nat.simps) simp

lemma str_nat_inj: "str_nat n = str_nat m \<Longrightarrow> n = m"
proof (induction n arbitrary: m rule: str_nat.induct)
  case (1 n)
  show ?case
  proof (cases "n < 10")
    case small_n: True
    show ?thesis
    proof (cases "m < 10")
      case True
      then show ?thesis
        using "1.prems" small_n digit_char_inj
        by (simp add: str_nat.simps [of n] str_nat.simps [of m])
    next
      case False
      then show ?thesis
        using "1.prems" small_n str_nat_nonempty [of "m div 10"]
        by (simp add: str_nat.simps [of n] str_nat.simps [of m])
    qed
  next
    case big_n: False
    show ?thesis
    proof (cases "m < 10")
      case True
      then show ?thesis
        using "1.prems" big_n str_nat_nonempty [of "n div 10"]
        by (simp add: str_nat.simps [of n] str_nat.simps [of m])
    next
      case False
      have e: "str_nat (n div 10) @ [digit_char (n mod 10)]
                 = str_nat (m div 10) @ [digit_char (m mod 10)]"
        using "1.prems" big_n False
        by (simp add: str_nat.simps [of n] str_nat.simps [of m])
      have q: "n div 10 = m div 10"
        using e "1.IH" [OF big_n] by simp
      have r: "n mod 10 = m mod 10"
        using e digit_char_inj [of "n mod 10" "m mod 10"] by simp
      show ?thesis
        using q r by (metis div_mult_mod_eq)
    qed
  qed
qed

lemma alt_name_inj: "alt_name i = alt_name j \<Longrightarrow> i = j"
  by (simp add: alt_name_def str_nat_inj)

lemma alt_name_not_initial: "alt_name i \<notin> set (keys phase1_opus_proposes)"
  by (simp add: alt_name_def keys_def phase1_opus_proposes_def)

section \<open>The consensus check\<close>

lemma check_consensus_Some: "check_consensus t = Some l \<Longrightarrow> (l, 3) \<in> set t"
  by (induction t rule: check_consensus.induct) (auto split: if_splits)

lemma check_consensus_None: "(check_consensus t = None) = (\<forall>(k, c) \<in> set t. c \<noteq> 3)"
  by (induction t rule: check_consensus.induct) auto

lemma voting_models_three: "int (length voting_models) = 3"
  by (simp add: voting_models_def)

text \<open>
  Claim C1. \<open>check_consensus\<close> returns a label exactly when some label of the tally has
  a count equal to the number of voting models, which is three; the label it returns
  has that count; and a tally whose counts are all below that number gives \<open>None\<close>.
\<close>

theorem check_consensus_strict_unanimity:
  "((\<exists>l. check_consensus t = Some l) = (\<exists>(k, c) \<in> set t. c = int (length voting_models)))
   \<and> (check_consensus t = Some w \<longrightarrow> (w, int (length voting_models)) \<in> set t)
   \<and> ((\<forall>(k, c) \<in> set t. c < int (length voting_models)) \<longrightarrow> check_consensus t = None)"
proof -
  have a: "(\<exists>l. check_consensus t = Some l) = (\<exists>(k, c) \<in> set t. c = 3)"
    using check_consensus_None [of t] by (cases "check_consensus t") auto
  have b: "check_consensus t = Some w \<longrightarrow> (w, 3) \<in> set t"
    by (simp add: check_consensus_Some)
  have c: "(\<forall>(k, c) \<in> set t. c < 3) \<longrightarrow> check_consensus t = None"
    unfolding check_consensus_None by fastforce
  show ?thesis
    unfolding voting_models_three using a b c by simp
qed

theorem check_consensus_strict_unanimity_witness:
  "check_consensus [(''A'', 1), (''B'', 3)] = Some ''B''
   \<and> (''B'', int (length voting_models)) \<in> set [(''A'', 1), (''B'', 3)]
   \<and> list_all (\<lambda>(k, c). c < int (length voting_models)) [(''A'', 2), (''B'', 1)]
   \<and> check_consensus [(''A'', 2), (''B'', 1)] = None"
  using check_consensus_strict_unanimity [of "[(''A'', 1), (''B'', 3)]" "''B''"]
    check_consensus_strict_unanimity [of "[(''A'', 2), (''B'', 1)]" "''A''"]
  by (simp add: voting_models_def)

section \<open>Three votes\<close>

lemma tally_three:
  "tally_votes [v1, v2, v3] =
     (if choice v1 = choice v2
      then (if choice v1 = choice v3 then [(choice v1, 3)] else [(choice v1, 2), (choice v3, 1)])
      else if choice v1 = choice v3 then [(choice v1, 2), (choice v2, 1)]
      else if choice v2 = choice v3 then [(choice v1, 1), (choice v2, 2)]
      else [(choice v1, 1), (choice v2, 1), (choice v3, 1)])"
  by (simp add: tally_votes_def dict_get_def)

lemma phase2_vote_three:
  "phase2_vote ask props i =
     [cast_vote ask props i ''Gemini'', cast_vote ask props i ''Codex'',
      cast_vote ask props i ''Opus'']"
  by (simp add: phase2_vote_def voting_models_def)

lemma minority_has_single:
  "(k, c) \<in> set (tally_votes (phase2_vote ask props i)) \<Longrightarrow> 0 < c \<Longrightarrow> c < 3 \<Longrightarrow>
     \<exists>(k', c') \<in> set (tally_votes (phase2_vote ask props i)). c' = 1"
  unfolding phase2_vote_three tally_three by (auto split: if_splits)

lemma unanimous_check:
  "check_consensus (tally_votes [v1, v2, v3]) =
     (if choice v1 = choice v2 \<and> choice v1 = choice v3 then Some (choice v1) else None)"
  unfolding tally_three by simp

section \<open>The rounds of the loop\<close>

lemma rounds_of_length: "length (rounds_of ask n idxs props) \<le> length idxs"
proof (induction idxs arbitrary: props)
  case Nil
  then show ?case by simp
next
  case (Cons i rest)
  show ?case
    using Cons.IH by (simp add: Let_def le_SucI)
qed

lemma rounds_of_empty: "(rounds_of ask n idxs props = []) = (idxs = [])"
  by (cases idxs) (simp_all add: Let_def)

lemma rounds_of_first:
  "rounds_of ask n idxs props \<noteq> [] \<Longrightarrow> round_proposals (rounds_of ask n idxs props ! 0) = props"
  by (cases idxs) (simp_all add: Let_def)

lemma rounds_of_iteration:
  "j < length (rounds_of ask n idxs props) \<Longrightarrow>
     round_iteration (rounds_of ask n idxs props ! j) = idxs ! j"
proof (induction idxs arbitrary: props j)
  case Nil
  then show ?case by simp
next
  case (Cons i rest)
  then show ?case
    by (cases j) (auto simp: Let_def split: if_splits)
qed

lemma rounds_of_round:
  "r \<in> set (rounds_of ask n idxs props) \<Longrightarrow>
     round_votes r = phase2_vote ask (round_proposals r) (round_iteration r)
     \<and> round_tally r = tally_votes (round_votes r)
     \<and> round_consensus r = check_consensus (round_tally r)"
proof (induction idxs arbitrary: props)
  case Nil
  then show ?case by simp
next
  case (Cons i rest)
  then show ?case
    by (auto simp: Let_def split: if_splits)
qed

lemma rounds_of_step:
  "Suc j < length (rounds_of ask n idxs props) \<Longrightarrow>
     round_proposals (rounds_of ask n idxs props ! Suc j) =
       (if int (round_iteration (rounds_of ask n idxs props ! j)) < n - 1
        then phase3_dissent (round_proposals (rounds_of ask n idxs props ! j))
               (round_tally (rounds_of ask n idxs props ! j))
               (round_iteration (rounds_of ask n idxs props ! j))
        else round_proposals (rounds_of ask n idxs props ! j))"
proof (induction idxs arbitrary: props j)
  case Nil
  then show ?case by simp
next
  case (Cons i rest)
  let ?t = "tally_votes (phase2_vote ask props i)"
  let ?next = "if int i < n - 1 then phase3_dissent props ?t i else props"
  show ?case
  proof (cases "truthy (check_consensus ?t)")
    case True
    then show ?thesis using Cons.prems by (simp add: Let_def)
  next
    case False
    then have unfold: "rounds_of ask n (i # rest) props =
        \<lparr>round_iteration = i, round_proposals = props, round_votes = phase2_vote ask props i,
         round_tally = ?t, round_consensus = check_consensus ?t\<rparr> # rounds_of ask n rest ?next"
      by (simp add: Let_def)
    show ?thesis
    proof (cases j)
      case 0
      have "rounds_of ask n rest ?next \<noteq> []"
        using Cons.prems unfold 0 by auto
      then show ?thesis
        using rounds_of_first [of ask n rest ?next] unfold 0 by simp
    next
      case (Suc j')
      have "Suc j' < length (rounds_of ask n rest ?next)"
        using Cons.prems unfold Suc by simp
      then show ?thesis
        using Cons.IH [of j' ?next] unfold Suc by simp
    qed
  qed
qed

lemma rounds_of_not_last:
  "Suc j < length (rounds_of ask n idxs props) \<Longrightarrow>
     \<not> truthy (round_consensus (rounds_of ask n idxs props ! j))"
proof (induction idxs arbitrary: props j)
  case Nil
  then show ?case by simp
next
  case (Cons i rest)
  then show ?case
    by (cases j) (auto simp: Let_def split: if_splits)
qed

lemma rounds_of_Cons_stop:
  "truthy (check_consensus (tally_votes (phase2_vote ask props i))) \<Longrightarrow>
     rounds_of ask n (i # rest) props =
       [\<lparr>round_iteration = i, round_proposals = props, round_votes = phase2_vote ask props i,
         round_tally = tally_votes (phase2_vote ask props i),
         round_consensus = check_consensus (tally_votes (phase2_vote ask props i))\<rparr>]"
  by (simp add: Let_def)

lemma rounds_of_Cons_go:
  "\<not> truthy (check_consensus (tally_votes (phase2_vote ask props i))) \<Longrightarrow>
     rounds_of ask n (i # rest) props =
       \<lparr>round_iteration = i, round_proposals = props, round_votes = phase2_vote ask props i,
        round_tally = tally_votes (phase2_vote ask props i),
        round_consensus = check_consensus (tally_votes (phase2_vote ask props i))\<rparr>
       # rounds_of ask n rest
           (if int i < n - 1
            then phase3_dissent props (tally_votes (phase2_vote ask props i)) i else props)"
  by (simp add: Let_def)

lemma loop_Cons_stop:
  "truthy (check_consensus (tally_votes (phase2_vote ask props i))) \<Longrightarrow>
     iteration_loop ask self (i # rest) props tv =
       (Inr (Consensus (i + 1) (the (check_consensus (tally_votes (phase2_vote ask props i))))
              (map asdict (phase2_vote ask props i))),
        self\<lparr>final_solution := check_consensus (tally_votes (phase2_vote ask props i))\<rparr>)"
  by (simp add: Let_def)

lemma loop_Cons_go:
  "\<not> truthy (check_consensus (tally_votes (phase2_vote ask props i))) \<Longrightarrow>
     iteration_loop ask self (i # rest) props tv =
       iteration_loop ask self rest
         (if int i < max_iterations self - 1
          then phase3_dissent props (tally_votes (phase2_vote ask props i)) i else props)
         (Some (tally_votes (phase2_vote ask props i)))"
  by (simp add: Let_def)

declare rounds_of.simps(2) [simp del] iteration_loop.simps(2) [simp del]

lemma rounds_of_full:
  "rounds_of ask n idxs props \<noteq> [] \<Longrightarrow>
   \<not> truthy (round_consensus (last (rounds_of ask n idxs props))) \<Longrightarrow>
     length (rounds_of ask n idxs props) = length idxs"
proof (induction idxs arbitrary: props)
  case Nil
  then show ?case by simp
next
  case (Cons i rest)
  let ?t = "tally_votes (phase2_vote ask props i)"
  let ?next = "if int i < n - 1 then phase3_dissent props ?t i else props"
  show ?case
  proof (cases "truthy (check_consensus ?t)")
    case True
    then show ?thesis
      using Cons.prems(2) by (simp only: rounds_of_Cons_stop [OF True]) simp
  next
    case False
    note go = rounds_of_Cons_go [OF False, of n rest]
    show ?thesis
    proof (cases "rest = []")
      case True
      show ?thesis unfolding go using True by simp
    next
      case nonempty: False
      then have ne: "rounds_of ask n rest ?next \<noteq> []"
        by (simp add: rounds_of_empty)
      have "\<not> truthy (round_consensus (last (rounds_of ask n rest ?next)))"
        using Cons.prems(2) ne by (simp add: go)
      then have "length (rounds_of ask n rest ?next) = length rest"
        using Cons.IH [OF ne] by simp
      then show ?thesis by (simp add: go)
    qed
  qed
qed

section \<open>The outcome of the loop\<close>

lemma loop_Nil_None: "iteration_loop ask self [] props None = (Inl UnboundLocalError, self)"
  by simp

lemma loop_consensus:
  "rounds_of ask (max_iterations self) idxs props \<noteq> [] \<Longrightarrow>
   truthy (round_consensus (last (rounds_of ask (max_iterations self) idxs props))) \<Longrightarrow>
     iteration_loop ask self idxs props tv =
       (Inr (Consensus
              (round_iteration (last (rounds_of ask (max_iterations self) idxs props)) + 1)
              (the (round_consensus (last (rounds_of ask (max_iterations self) idxs props))))
              (map asdict (round_votes (last (rounds_of ask (max_iterations self) idxs props))))),
        self\<lparr>final_solution :=
               round_consensus (last (rounds_of ask (max_iterations self) idxs props))\<rparr>)"
proof (induction idxs arbitrary: props tv)
  case Nil
  then show ?case by simp
next
  case (Cons i rest)
  let ?n = "max_iterations self"
  let ?t = "tally_votes (phase2_vote ask props i)"
  let ?next = "if int i < ?n - 1 then phase3_dissent props ?t i else props"
  show ?case
  proof (cases "truthy (check_consensus ?t)")
    case True
    then show ?thesis
      by (simp add: loop_Cons_stop rounds_of_Cons_stop)
  next
    case False
    note go = rounds_of_Cons_go [OF False, of ?n rest]
    have ne: "rounds_of ask ?n rest ?next \<noteq> []"
    proof
      assume "rounds_of ask ?n rest ?next = []"
      then show False using Cons.prems(2) False by (simp add: go)
    qed
    have tr: "truthy (round_consensus (last (rounds_of ask ?n rest ?next)))"
      using Cons.prems(2) ne by (simp add: go)
    have step: "iteration_loop ask self (i # rest) props tv =
                  iteration_loop ask self rest ?next (Some ?t)"
      using False by (rule loop_Cons_go)
    show ?thesis
      using Cons.IH [OF ne tr, of "Some ?t"] ne by (simp add: step go)
  qed
qed

lemma loop_escalated:
  "rounds_of ask (max_iterations self) idxs props \<noteq> [] \<Longrightarrow>
   \<not> truthy (round_consensus (last (rounds_of ask (max_iterations self) idxs props))) \<Longrightarrow>
   int (last idxs) \<ge> max_iterations self - 1 \<Longrightarrow>
     iteration_loop ask self idxs props tv =
       (Inr (Escalated (max_iterations self)
              (round_tally (last (rounds_of ask (max_iterations self) idxs props)))
              (round_proposals (last (rounds_of ask (max_iterations self) idxs props)))
              True),
        self)"
proof (induction idxs arbitrary: props tv)
  case Nil
  then show ?case by simp
next
  case (Cons i rest)
  let ?n = "max_iterations self"
  let ?t = "tally_votes (phase2_vote ask props i)"
  let ?next = "if int i < ?n - 1 then phase3_dissent props ?t i else props"
  have False: "\<not> truthy (check_consensus ?t)"
  proof
    assume T: "truthy (check_consensus ?t)"
    show False using Cons.prems(2) by (simp only: rounds_of_Cons_stop [OF T]) (simp add: T)
  qed
  note go = rounds_of_Cons_go [OF False, of ?n rest]
  have step: "iteration_loop ask self (i # rest) props tv =
                iteration_loop ask self rest ?next (Some ?t)"
    using False by (rule loop_Cons_go)
  show ?case
  proof (cases "rest = []")
    case True
    show ?thesis
      unfolding step go using True Cons.prems(3) by simp
  next
    case nonempty: False
    then have ne: "rounds_of ask ?n rest ?next \<noteq> []"
      by (simp add: rounds_of_empty)
    have nt: "\<not> truthy (round_consensus (last (rounds_of ask ?n rest ?next)))"
      using Cons.prems(2) ne by (simp add: go)
    have l: "int (last rest) \<ge> ?n - 1"
      using Cons.prems(3) nonempty by simp
    show ?thesis
      using Cons.IH [OF ne nt l, of "Some ?t"] ne by (simp add: step go)
  qed
qed

section \<open>The dissent step\<close>

lemma phase3_dissent_eq:
  "phase3_dissent props t i =
     (if (\<exists>(k, c) \<in> set t. c = 1) then dict_set props (alt_name i) (alt_proposal i) else props)"
proof -
  have "(filter (\<lambda>(k, v). v = 1) t = []) = (\<not> (\<exists>(k, c) \<in> set t. c = 1))"
    by (auto simp: filter_empty_conv)
  then show ?thesis
    by (simp add: phase3_dissent_def)
qed

lemma keys_phase3_dissent:
  "set (keys (phase3_dissent props t i)) \<subseteq> insert (alt_name i) (set (keys props))"
  by (auto simp: phase3_dissent_eq keys_dict_set)

lemma distinct_phase3_dissent:
  "distinct (keys props) \<Longrightarrow> distinct (keys (phase3_dissent props t i))"
  by (simp add: phase3_dissent_eq distinct_dict_set)

lemma phase3_dissent_fresh:
  "alt_name i \<notin> set (keys props) \<Longrightarrow>
     phase3_dissent props t i = props
     \<or> phase3_dissent props t i = props @ [(alt_name i, alt_proposal i)]"
  by (simp add: phase3_dissent_eq dict_set_fresh)

section \<open>The rounds of a run\<close>

lemma run_rounds_length: "length (run_rounds ask self) \<le> nat (max_iterations self)"
  using rounds_of_length [of ask "max_iterations self" "[0 ..< nat (max_iterations self)]"]
  by (simp add: run_rounds_def)

lemma run_rounds_nonempty: "0 < max_iterations self \<Longrightarrow> run_rounds ask self \<noteq> []"
  by (simp add: run_rounds_def rounds_of_empty)

lemma run_rounds_first:
  "0 < length (run_rounds ask self) \<Longrightarrow> proposals_at ask self 0 = phase1_opus_proposes"
  unfolding run_rounds_def by (rule rounds_of_first) simp

lemma run_rounds_iteration:
  assumes "j < length (run_rounds ask self)"
  shows "round_iteration (run_rounds ask self ! j) = j"
proof -
  have "j < nat (max_iterations self)"
    using assms run_rounds_length [of ask self] by simp
  then have "[0 ..< nat (max_iterations self)] ! j = j"
    by simp
  then show ?thesis
    using assms rounds_of_iteration [of j ask "max_iterations self" "[0 ..< nat (max_iterations self)]"]
    by (simp add: run_rounds_def)
qed

lemma run_rounds_step:
  assumes "Suc j < length (run_rounds ask self)"
  shows "proposals_at ask self (Suc j)
           = phase3_dissent (proposals_at ask self j) (tally_at ask self j) j"
proof -
  have it: "round_iteration (run_rounds ask self ! j) = j"
    using assms by (simp add: run_rounds_iteration)
  have "Suc j < nat (max_iterations self)"
    using assms run_rounds_length [of ask self] by simp
  then have more: "int j < max_iterations self - 1"
    by simp
  show ?thesis
    using rounds_of_step [of j ask "max_iterations self" "[0 ..< nat (max_iterations self)]"
        phase1_opus_proposes] assms it more
    by (simp add: run_rounds_def)
qed

lemma run_rounds_keys:
  "j < length (run_rounds ask self) \<Longrightarrow>
     set (keys (proposals_at ask self j)) \<subseteq> set (keys phase1_opus_proposes) \<union> alt_name ` {..<j}
     \<and> distinct (keys (proposals_at ask self j))"
proof (induction j)
  case 0
  then show ?case
    by (simp add: run_rounds_first) (simp add: keys_def phase1_opus_proposes_def)
next
  case (Suc j)
  have IH: "set (keys (proposals_at ask self j))
              \<subseteq> set (keys phase1_opus_proposes) \<union> alt_name ` {..<j}"
    and d: "distinct (keys (proposals_at ask self j))"
    using Suc by simp_all
  have step: "proposals_at ask self (Suc j)
                = phase3_dissent (proposals_at ask self j) (tally_at ask self j) j"
    using Suc.prems by (rule run_rounds_step)
  have "set (keys (proposals_at ask self (Suc j)))
          \<subseteq> insert (alt_name j) (set (keys (proposals_at ask self j)))"
    unfolding step by (rule keys_phase3_dissent)
  then have "set (keys (proposals_at ask self (Suc j)))
          \<subseteq> set (keys phase1_opus_proposes) \<union> alt_name ` {..<Suc j}"
    using IH by (auto simp: lessThan_Suc)
  moreover have "distinct (keys (proposals_at ask self (Suc j)))"
    unfolding step using d by (rule distinct_phase3_dissent)
  ultimately show ?case by simp
qed

lemma run_rounds_fresh:
  assumes "j < length (run_rounds ask self)"
  shows "alt_name j \<notin> set (keys (proposals_at ask self j))"
proof
  assume "alt_name j \<in> set (keys (proposals_at ask self j))"
  then have "alt_name j \<in> set (keys phase1_opus_proposes) \<union> alt_name ` {..<j}"
    using run_rounds_keys [OF assms] by blast
  then show False
    using alt_name_not_initial [of j] alt_name_inj [of j] by auto
qed

lemma run_rounds_append:
  assumes "Suc j < length (run_rounds ask self)"
  shows "proposals_at ask self (Suc j) = proposals_at ask self j
         \<or> proposals_at ask self (Suc j)
             = proposals_at ask self j @ [(alt_name j, alt_proposal j)]"
proof -
  have "alt_name j \<notin> set (keys (proposals_at ask self j))"
    using assms by (simp add: run_rounds_fresh)
  then show ?thesis
    unfolding run_rounds_step [OF assms] by (rule phase3_dissent_fresh)
qed

lemma run_rounds_mono:
  "j \<le> k \<Longrightarrow> k < length (run_rounds ask self) \<Longrightarrow>
     set (proposals_at ask self j) \<subseteq> set (proposals_at ask self k)"
proof (induction k)
  case 0
  then show ?case by simp
next
  case (Suc k)
  show ?case
  proof (cases "j = Suc k")
    case True
    then show ?thesis by simp
  next
    case False
    then have "set (proposals_at ask self j) \<subseteq> set (proposals_at ask self k)"
      using Suc by simp
    moreover have "set (proposals_at ask self k) \<subseteq> set (proposals_at ask self (Suc k))"
      using run_rounds_append [OF Suc.prems(2)] by auto
    ultimately show ?thesis by blast
  qed
qed

lemma last_round_iteration:
  assumes "run_rounds ask self \<noteq> []"
  shows "round_iteration (last_round ask self) + 1 = length (run_rounds ask self)"
proof -
  have "last_round ask self = run_rounds ask self ! (length (run_rounds ask self) - 1)"
    using assms by (simp add: last_conv_nth)
  then show ?thesis
    using assms run_rounds_iteration [of "length (run_rounds ask self) - 1" ask self] by simp
qed

section \<open>The outcome of a run\<close>

lemma orchestrate_no_round:
  "max_iterations self \<le> 0 \<Longrightarrow> orchestrate ask self = (Inl UnboundLocalError, self)"
  by (simp add: orchestrate_def)

lemma orchestrate_consensus:
  assumes "0 < max_iterations self" and "truthy (round_consensus (last_round ask self))"
  shows "orchestrate ask self =
           (Inr (Consensus (length (run_rounds ask self))
                  (the (round_consensus (last_round ask self)))
                  (map asdict (round_votes (last_round ask self)))),
            self\<lparr>final_solution := round_consensus (last_round ask self)\<rparr>)"
proof -
  have ne: "run_rounds ask self \<noteq> []"
    using assms(1) by (rule run_rounds_nonempty)
  show ?thesis
    using loop_consensus [of ask self "[0 ..< nat (max_iterations self)]" phase1_opus_proposes None]
      ne assms(2) last_round_iteration [OF ne]
    by (simp add: orchestrate_def run_rounds_def)
qed

lemma orchestrate_escalated:
  assumes "0 < max_iterations self" and "\<not> truthy (round_consensus (last_round ask self))"
  shows "orchestrate ask self =
           (Inr (Escalated (max_iterations self) (round_tally (last_round ask self))
                  (round_proposals (last_round ask self)) True),
            self)"
    and "int (length (run_rounds ask self)) = max_iterations self"
proof -
  have ne: "run_rounds ask self \<noteq> []"
    using assms(1) by (rule run_rounds_nonempty)
  have l: "max_iterations self - 1 \<le> int (last [0 ..< nat (max_iterations self)])"
    using assms(1) by (simp add: last_upt)
  show "orchestrate ask self =
           (Inr (Escalated (max_iterations self) (round_tally (last_round ask self))
                  (round_proposals (last_round ask self)) True),
            self)"
    using loop_escalated [of ask self "[0 ..< nat (max_iterations self)]" phase1_opus_proposes None]
      ne assms(2) l
    by (simp add: orchestrate_def run_rounds_def)
  show "int (length (run_rounds ask self)) = max_iterations self"
    using rounds_of_full [of ask "max_iterations self" "[0 ..< nat (max_iterations self)]"
        phase1_opus_proposes] ne assms
    by (simp add: run_rounds_def)
qed

lemma status_cases: "status r = ''consensus'' \<or> status r = ''escalated''"
  by (cases r) simp_all

lemma orchestrate_outcome:
  assumes "0 < max_iterations self"
  shows "\<exists>r. fst (orchestrate ask self) = Inr r
           \<and> (case r of
                 Consensus k w vs \<Rightarrow>
                   1 \<le> k \<and> int k - 1 \<le> max_iterations self - 1
                   \<and> length (run_rounds ask self) = k
               | Escalated n t ps a \<Rightarrow>
                   n = max_iterations self \<and> a
                   \<and> int (length (run_rounds ask self)) = max_iterations self)"
proof (cases "truthy (round_consensus (last_round ask self))")
  case True
  have ne: "run_rounds ask self \<noteq> []"
    using assms by (rule run_rounds_nonempty)
  then have one: "1 \<le> length (run_rounds ask self)"
    by (cases "run_rounds ask self") simp_all
  have le: "int (length (run_rounds ask self)) - 1 \<le> max_iterations self - 1"
    using run_rounds_length [of ask self] assms by linarith
  have "fst (orchestrate ask self) =
          Inr (Consensus (length (run_rounds ask self))
                (the (round_consensus (last_round ask self)))
                (map asdict (round_votes (last_round ask self))))"
    by (simp add: orchestrate_consensus [OF assms True])
  then show ?thesis
    using one le by simp
next
  case False
  have "fst (orchestrate ask self) =
          Inr (Escalated (max_iterations self) (round_tally (last_round ask self))
                (round_proposals (last_round ask self)) True)"
    by (simp add: orchestrate_escalated(1) [OF assms False])
  then show ?thesis
    using orchestrate_escalated(2) [OF assms False] by simp
qed

section \<open>Termination within the bound\<close>

text \<open>
  Claim C2. With \<open>max_iterations\<close> at least one, \<open>orchestrate\<close> returns a result
  (no exception, and the loop, a recursion over the finite list of round indices, ends):
  either a consensus result whose reported iteration \<open>k\<close> is the number of rounds run,
  so that the round index \<open>k - 1\<close> is at most \<open>max_iterations - 1\<close>, or an escalated
  result after exactly \<open>max_iterations\<close> rounds. The number of rounds never exceeds
  \<open>max_iterations\<close>.
\<close>

theorem orchestrate_terminates_within_bound:
  assumes "0 < max_iterations self"
  shows "\<exists>r. fst (orchestrate ask self) = Inr r
           \<and> (case r of
                 Consensus k w vs \<Rightarrow>
                   1 \<le> k \<and> int k - 1 \<le> max_iterations self - 1
                   \<and> length (run_rounds ask self) = k
               | Escalated n t ps a \<Rightarrow>
                   n = max_iterations self \<and> a
                   \<and> int (length (run_rounds ask self)) = max_iterations self)
           \<and> (status r = ''consensus'' \<or> status r = ''escalated'')
           \<and> int (length (run_rounds ask self)) \<le> max_iterations self"
proof -
  obtain r where r: "fst (orchestrate ask self) = Inr r"
    and shape: "case r of
                 Consensus k w vs \<Rightarrow>
                   1 \<le> k \<and> int k - 1 \<le> max_iterations self - 1
                   \<and> length (run_rounds ask self) = k
               | Escalated n t ps a \<Rightarrow>
                   n = max_iterations self \<and> a
                   \<and> int (length (run_rounds ask self)) = max_iterations self"
    using orchestrate_outcome [OF assms, of ask] by blast
  have len: "int (length (run_rounds ask self)) \<le> max_iterations self"
    using run_rounds_length [of ask self] assms by simp
  show ?thesis
  proof (intro exI conjI)
    show "fst (orchestrate ask self) = Inr r" by (rule r)
    show "case r of
                 Consensus k w vs \<Rightarrow>
                   1 \<le> k \<and> int k - 1 \<le> max_iterations self - 1
                   \<and> length (run_rounds ask self) = k
               | Escalated n t ps a \<Rightarrow>
                   n = max_iterations self \<and> a
                   \<and> int (length (run_rounds ask self)) = max_iterations self" by (rule shape)
    show "status r = ''consensus'' \<or> status r = ''escalated''" by (rule status_cases)
    show "int (length (run_rounds ask self)) \<le> max_iterations self" by (rule len)
  qed
qed

theorem orchestrate_terminates_within_bound_witness:
  "0 < max_iterations (init_orchestrator ''p'' '''' 2)
   \<and> (\<exists>r. fst (orchestrate dissent_then_alt (init_orchestrator ''p'' '''' 2)) = Inr r
           \<and> (case r of
                 Consensus k w vs \<Rightarrow>
                   1 \<le> k \<and> int k - 1 \<le> max_iterations (init_orchestrator ''p'' '''' 2) - 1
                   \<and> length (run_rounds dissent_then_alt (init_orchestrator ''p'' '''' 2)) = k
               | Escalated n t ps a \<Rightarrow>
                   n = max_iterations (init_orchestrator ''p'' '''' 2) \<and> a
                   \<and> int (length (run_rounds dissent_then_alt (init_orchestrator ''p'' '''' 2)))
                       = max_iterations (init_orchestrator ''p'' '''' 2))
           \<and> (status r = ''consensus'' \<or> status r = ''escalated'')
           \<and> int (length (run_rounds dissent_then_alt (init_orchestrator ''p'' '''' 2)))
               \<le> max_iterations (init_orchestrator ''p'' '''' 2))"
proof -
  have h: "0 < max_iterations (init_orchestrator ''p'' '''' 2)"
    by (simp add: init_orchestrator_def)
  show ?thesis
    by (rule conjI [OF h orchestrate_terminates_within_bound [OF h, of dissent_then_alt]])
qed

section \<open>No iteration at all\<close>

text \<open>
  Claim C10. With \<open>max_iterations = 0\<close> the loop body never runs (there is no round),
  the escalation branch reads the variable \<open>tally\<close> that no assignment has reached, and
  \<open>orchestrate\<close> fails with \<open>UnboundLocalError\<close> instead of returning an escalated
  result; the orchestrator object is unchanged.
\<close>

theorem zero_iterations_unbound_tally:
  "max_iterations self = 0 \<Longrightarrow>
     orchestrate ask self = (Inl UnboundLocalError, self) \<and> run_rounds ask self = []"
  by (simp add: orchestrate_def run_rounds_def)

theorem zero_iterations_unbound_tally_witness:
  "max_iterations (init_orchestrator ''p'' '''' 0) = 0
   \<and> orchestrate placeholder_agent (init_orchestrator ''p'' '''' 0)
       = (Inl UnboundLocalError, init_orchestrator ''p'' '''' 0)
   \<and> run_rounds placeholder_agent (init_orchestrator ''p'' '''' 0) = []"
proof -
  have h: "max_iterations (init_orchestrator ''p'' '''' 0) = 0"
    by (simp add: init_orchestrator_def)
  show ?thesis
    by (rule conjI [OF h zero_iterations_unbound_tally [OF h, of placeholder_agent]])
qed

section \<open>Exit status\<close>

text \<open>
  Claim C9. Without the problem argument (fewer than two entries in \<open>sys.argv\<close>)
  \<open>main\<close> exits with status 1. With it, whatever the agents answer, the run ends in
  consensus or escalation and the exit status is 0.
\<close>

theorem main_exit_status:
  "(length argv < 2 \<longrightarrow> main ask argv = 1)
   \<and> (2 \<le> length argv \<longrightarrow>
        main ask argv = 0
        \<and> (\<exists>r. fst (orchestrate ask
                      (init_orchestrator (argv ! 1) (if 2 < length argv then argv ! 2 else '''') 5))
                  = Inr r
               \<and> (status r = ''consensus'' \<or> status r = ''escalated'')))"
proof -
  let ?o = "init_orchestrator (argv ! 1) (if 2 < length argv then argv ! 2 else '''') 5"
  have pos: "0 < max_iterations ?o"
    by (simp add: init_orchestrator_def)
  obtain r where r: "fst (orchestrate ask ?o) = Inr r"
    using orchestrate_outcome [OF pos, of ask] by (elim exE conjE)
  have usage: "length argv < 2 \<longrightarrow> main ask argv = 1"
    by (simp add: main_def)
  have ok: "2 \<le> length argv \<longrightarrow> main ask argv = 0"
    using r by (simp add: main_def Let_def)
  have st: "status r = ''consensus'' \<or> status r = ''escalated''"
    by (rule status_cases)
  have run: "\<exists>r. fst (orchestrate ask ?o) = Inr r
               \<and> (status r = ''consensus'' \<or> status r = ''escalated'')"
    by (rule exI [of _ r]) (rule conjI [OF r st])
  show ?thesis
  proof (intro conjI impI)
    assume "length argv < 2"
    then show "main ask argv = 1" using usage by simp
  next
    assume "2 \<le> length argv"
    then show "main ask argv = 0" using ok by simp
  next
    show "\<exists>r. fst (orchestrate ask ?o) = Inr r
               \<and> (status r = ''consensus'' \<or> status r = ''escalated'')" by (rule run)
  qed
qed

theorem main_exit_status_witness:
  "main placeholder_agent [''orchestrate.py''] = 1
   \<and> main split_then_majority [''orchestrate.py'', ''a problem''] = 0
   \<and> main placeholder_agent [''orchestrate.py'', ''a problem'', ''a context''] = 0"
proof (intro conjI)
  have a: "length [''orchestrate.py''] < 2" by simp
  show "main placeholder_agent [''orchestrate.py''] = 1"
    by (rule mp [OF conjunct1 [OF main_exit_status] a])
  have b: "2 \<le> length [''orchestrate.py'', ''a problem'']" by simp
  show "main split_then_majority [''orchestrate.py'', ''a problem''] = 0"
    by (rule conjunct1 [OF mp [OF conjunct2 [OF main_exit_status] b]])
  have c: "2 \<le> length [''orchestrate.py'', ''a problem'', ''a context'']" by simp
  show "main placeholder_agent [''orchestrate.py'', ''a problem'', ''a context''] = 0"
    by (rule conjunct1 [OF mp [OF conjunct2 [OF main_exit_status] c]])
qed

section \<open>The sum of a tally\<close>

text \<open>
  Claim C5. In every round of a run the counts of the tally add up to the number of voting
  models, which is three: \<open>phase2_vote\<close> always returns one vote per model and
  \<open>tally_votes\<close> adds one to some count for each vote. The same holds for the tally
  of the votes on any proposal set in any round.
\<close>

theorem tally_sums_to_voters:
  "(\<forall>r \<in> set (run_rounds ask self).
       sum_list (map snd (round_tally r)) = int (length voting_models))
   \<and> sum_list (map snd (tally_votes (phase2_vote ask props i))) = int (length voting_models)
   \<and> int (length voting_models) = 3"
proof (intro conjI ballI)
  fix r assume "r \<in> set (run_rounds ask self)"
  then have "round_votes r = phase2_vote ask (round_proposals r) (round_iteration r)"
    and "round_tally r = tally_votes (round_votes r)"
    using rounds_of_round [of r ask "max_iterations self" "[0 ..< nat (max_iterations self)]"
        phase1_opus_proposes]
    by (simp_all add: run_rounds_def)
  then show "sum_list (map snd (round_tally r)) = int (length voting_models)"
    by (simp add: sum_tally_votes length_phase2_vote voting_models_three)
next
  show "sum_list (map snd (tally_votes (phase2_vote ask props i))) = int (length voting_models)"
    by (simp add: sum_tally_votes length_phase2_vote voting_models_three)
next
  show "int (length voting_models) = 3" by (rule voting_models_three)
qed

theorem tally_sums_to_voters_witness:
  "map round_tally (run_rounds split_then_majority (init_orchestrator ''p'' '''' 2))
     = [[(''A'', 1), (''B'', 1), (''C'', 1)], [(''A'', 2), (''B'', 1)]]
   \<and> list_all (\<lambda>r. sum_list (map snd (round_tally r)) = int (length voting_models))
       (run_rounds split_then_majority (init_orchestrator ''p'' '''' 2))
   \<and> sum_list (map snd (tally_votes (phase2_vote split_then_majority phase1_opus_proposes 0)))
       = int (length voting_models)"
proof -
  have a: "map round_tally (run_rounds split_then_majority (init_orchestrator ''p'' '''' 2))
     = [[(''A'', 1), (''B'', 1), (''C'', 1)], [(''A'', 2), (''B'', 1)]]"
    by code_simp
  show ?thesis
    using a tally_sums_to_voters [of split_then_majority "init_orchestrator ''p'' '''' 2"
        phase1_opus_proposes 0]
    by (simp add: list_all_iff)
qed

section \<open>The proposal set across rounds\<close>

text \<open>
  Claim C6. Whenever round \<open>j\<close> of a run is followed by round \<open>j + 1\<close>, the proposal
  set of round \<open>j + 1\<close> is the result of the dissent step on that of round \<open>j\<close>; every
  label of round \<open>j\<close> is a label of round \<open>j + 1\<close>; the entries of round \<open>j\<close> are
  the first entries of round \<open>j + 1\<close>, unchanged and in the same order, followed by
  nothing or by the one new entry \<open>Alt_j\<close>; that label was not in the set of round
  \<open>j\<close>, the labels of round \<open>j + 1\<close> are pairwise different, and different round
  indices give different \<open>Alt_\<close> labels.
\<close>

theorem proposal_set_append_only:
  assumes "Suc j < length (run_rounds ask self)"
  shows "set (keys (proposals_at ask self j)) \<subseteq> set (keys (proposals_at ask self (Suc j)))
         \<and> take (length (proposals_at ask self j)) (proposals_at ask self (Suc j))
             = proposals_at ask self j
         \<and> proposals_at ask self (Suc j)
             = phase3_dissent (proposals_at ask self j) (tally_at ask self j) j
         \<and> (proposals_at ask self (Suc j) = proposals_at ask self j
            \<or> proposals_at ask self (Suc j)
                = proposals_at ask self j @ [(alt_name j, alt_proposal j)])
         \<and> alt_name j \<notin> set (keys (proposals_at ask self j))
         \<and> distinct (keys (proposals_at ask self (Suc j)))
         \<and> inj alt_name"
proof -
  have app: "proposals_at ask self (Suc j) = proposals_at ask self j
            \<or> proposals_at ask self (Suc j)
                = proposals_at ask self j @ [(alt_name j, alt_proposal j)]"
    using assms by (rule run_rounds_append)
  have sub: "set (keys (proposals_at ask self j)) \<subseteq> set (keys (proposals_at ask self (Suc j)))"
    using app by (auto simp: keys_def)
  have pre: "take (length (proposals_at ask self j)) (proposals_at ask self (Suc j))
             = proposals_at ask self j"
    using app by auto
  have step: "proposals_at ask self (Suc j)
             = phase3_dissent (proposals_at ask self j) (tally_at ask self j) j"
    using assms by (rule run_rounds_step)
  have fresh: "alt_name j \<notin> set (keys (proposals_at ask self j))"
    using assms by (simp add: run_rounds_fresh)
  have dist: "distinct (keys (proposals_at ask self (Suc j)))"
    using run_rounds_keys [OF assms] by simp
  have inj: "inj alt_name"
    by (rule injI) (rule alt_name_inj)
  show ?thesis
    using sub pre step app fresh dist inj by (intro conjI)
qed

theorem proposal_set_append_only_witness:
  "Suc 0 < length (run_rounds split_then_majority (init_orchestrator ''p'' '''' 2))
   \<and> proposals_at split_then_majority (init_orchestrator ''p'' '''' 2) (Suc 0)
       = proposals_at split_then_majority (init_orchestrator ''p'' '''' 2) 0
           @ [(''Alt_0'', alt_proposal 0)]
   \<and> alt_name 0 \<notin> set (keys (proposals_at split_then_majority (init_orchestrator ''p'' '''' 2) 0))
   \<and> distinct (keys (proposals_at split_then_majority (init_orchestrator ''p'' '''' 2) (Suc 0)))"
proof -
  have h: "Suc 0 < length (run_rounds split_then_majority (init_orchestrator ''p'' '''' 2))"
    by code_simp
  have e: "proposals_at split_then_majority (init_orchestrator ''p'' '''' 2) (Suc 0)
       = proposals_at split_then_majority (init_orchestrator ''p'' '''' 2) 0
           @ [(''Alt_0'', alt_proposal 0)]"
    by code_simp
  note all = proposal_set_append_only [OF h]
  have fresh:
    "alt_name 0 \<notin> set (keys (proposals_at split_then_majority (init_orchestrator ''p'' '''' 2) 0))"
    using all by (elim conjE)
  have dist:
    "distinct (keys (proposals_at split_then_majority (init_orchestrator ''p'' '''' 2) (Suc 0)))"
    using all by (elim conjE)
  show ?thesis
    using h e fresh dist by (intro conjI)
qed

section \<open>Votes for unknown labels\<close>

text \<open>
  Claim C4 says that a vote whose label is not a key of the proposal set is rejected and
  never counted. It fails: \<open>tally_votes\<close> does not look at the proposal set. A vote for
  \<open>"Z"\<close>, which is not among \<open>A\<close>, \<open>B\<close>, \<open>C\<close>, is counted, and three such votes
  make \<open>"Z"\<close> the consensus.
\<close>

theorem unknown_label_is_counted:
  "''Z'' \<notin> set (keys phase1_opus_proposes)
   \<and> tally_votes
        [\<lparr>model = ''Gemini'', choice = ''Z'', confidence = ''High'', reasoning = ''...'',
          concerns = ''...''\<rparr>,
         \<lparr>model = ''Codex'', choice = ''A'', confidence = ''High'', reasoning = ''...'',
          concerns = ''...''\<rparr>]
       = [(''Z'', 1), (''A'', 1)]
   \<and> map choice (phase2_vote unknown_label_agent phase1_opus_proposes 0) = [''Z'', ''Z'', ''Z'']
   \<and> tally_votes (phase2_vote unknown_label_agent phase1_opus_proposes 0) = [(''Z'', 3)]
   \<and> check_consensus (tally_votes (phase2_vote unknown_label_agent phase1_opus_proposes 0))
       = Some ''Z''"
  by code_simp

text \<open>
  Claim C4, amended. Every vote of the list is counted toward the label it chooses,
  whether or not that label is a key of the proposal set: a label is in the tally exactly
  when some vote chooses it, and its count is the number of votes that choose it. Each
  label occurs once in the tally.
\<close>

theorem tally_counts_every_vote:
  "map_of (tally_votes votes) l
     = (if votes_for votes l = 0 then None else Some (votes_for votes l))
   \<and> votes_for votes l = int (length (filter (\<lambda>v. choice v = l) votes))
   \<and> distinct (keys (tally_votes votes))"
  by (simp add: map_of_tally_votes distinct_tally_votes votes_for_def)

theorem tally_counts_every_vote_witness:
  "map_of (tally_votes (phase2_vote unknown_label_agent phase1_opus_proposes 0)) ''Z'' = Some 3
   \<and> votes_for (phase2_vote unknown_label_agent phase1_opus_proposes 0) ''Z'' = 3"
proof -
  have a: "votes_for (phase2_vote unknown_label_agent phase1_opus_proposes 0) ''Z'' = 3"
    by code_simp
  show ?thesis
    using a tally_counts_every_vote [of "phase2_vote unknown_label_agent phase1_opus_proposes 0" "''Z''"]
    by simp
qed

section \<open>When the dissent step adds an alternative\<close>

text \<open>
  Claim C7 says that the dissent step adds \<open>Alt_<round>\<close> whenever some label has a
  count that is not zero and below the number of voters. It fails: the step looks for a
  count of exactly one. For the tally \<open>{"A": 2}\<close> the label \<open>A\<close> is such a minority
  label, and the proposal set comes back unchanged, without \<open>Alt_0\<close>.
\<close>

theorem dissent_ignores_larger_minority:
  "(''A'', 2) \<in> set [(''A'', 2 :: int)] \<and> (0 :: int) < 2 \<and> (2 :: int) < 3
   \<and> phase3_dissent phase1_opus_proposes [(''A'', 2)] 0 = phase1_opus_proposes
   \<and> alt_name 0 \<notin> set (keys (phase3_dissent phase1_opus_proposes [(''A'', 2)] 0))"
  by code_simp

text \<open>
  Claim C7, amended. For every proposal set, tally and round index, the dissent step
  assigns the new proposal to the label \<open>Alt_<round>\<close> exactly when some label of the
  tally has the count one, and returns the proposal set unchanged otherwise. After the
  assignment the label maps to the new proposal; when the label was not in the set, the
  new entry is appended and nothing else changes. In the tally of the three votes of any
  round, a label with a count that is not zero and below three comes with a label of count
  one.
\<close>

theorem dissent_inserts_on_single_vote:
  "phase3_dissent props t i
     = (if (\<exists>(k, c) \<in> set t. c = 1) then dict_set props (alt_name i) (alt_proposal i) else props)
   \<and> map_of (dict_set props (alt_name i) (alt_proposal i)) (alt_name i) = Some (alt_proposal i)
   \<and> (alt_name i \<notin> set (keys props) \<longrightarrow>
        dict_set props (alt_name i) (alt_proposal i) = props @ [(alt_name i, alt_proposal i)])
   \<and> ((\<exists>(k, c) \<in> set (tally_votes (phase2_vote ask props i)). 0 < c \<and> c < 3) \<longrightarrow>
        (\<exists>(k, c) \<in> set (tally_votes (phase2_vote ask props i)). c = 1))"
proof (intro conjI impI)
  show "phase3_dissent props t i
     = (if (\<exists>(k, c) \<in> set t. c = 1) then dict_set props (alt_name i) (alt_proposal i) else props)"
    by (rule phase3_dissent_eq)
  show "map_of (dict_set props (alt_name i) (alt_proposal i)) (alt_name i) = Some (alt_proposal i)"
    by (simp add: map_of_dict_set)
next
  assume "alt_name i \<notin> set (keys props)"
  then show "dict_set props (alt_name i) (alt_proposal i) = props @ [(alt_name i, alt_proposal i)]"
    by (rule dict_set_fresh)
next
  assume "\<exists>(k, c) \<in> set (tally_votes (phase2_vote ask props i)). 0 < c \<and> c < 3"
  then show "\<exists>(k, c) \<in> set (tally_votes (phase2_vote ask props i)). c = 1"
    using minority_has_single [of _ _ ask props i] by blast
qed

theorem dissent_inserts_on_single_vote_witness:
  "list_ex (\<lambda>(k, c). c = 1) [(''A'', 2 :: int), (''B'', 1)]
   \<and> alt_name 0 \<notin> set (keys phase1_opus_proposes)
   \<and> phase3_dissent phase1_opus_proposes [(''A'', 2), (''B'', 1)] 0
       = phase1_opus_proposes @ [(''Alt_0'', alt_proposal 0)]
   \<and> list_ex (\<lambda>(k, c). 0 < c \<and> c < 3)
       (tally_votes (phase2_vote majority_agent phase1_opus_proposes 0))
   \<and> list_ex (\<lambda>(k, c). c = 1) (tally_votes (phase2_vote majority_agent phase1_opus_proposes 0))"
proof -
  have a: "alt_name 0 = ''Alt_0''" by code_simp
  have b: "alt_name 0 \<notin> set (keys phase1_opus_proposes)" by (rule alt_name_not_initial)
  have c: "tally_votes (phase2_vote majority_agent phase1_opus_proposes 0) = [(''A'', 2), (''B'', 1)]"
    by code_simp
  show ?thesis
    using a b c
      dissent_inserts_on_single_vote [of phase1_opus_proposes "[(''A'', 2), (''B'', 1)]" 0
        majority_agent]
    by simp
qed

section \<open>The escalated result\<close>

text \<open>
  Claim C3 says that the escalated result contains the round-by-round history of votes.
  It fails: the escalated dictionary has no entry for votes, and \<open>self.rounds\<close> is never
  appended to. Two runs of two rounds whose votes differ in round 0 (\<open>A, B, C\<close> against
  \<open>A, A, B\<close>) return the same escalated result, so the votes cannot be read off it.
\<close>

theorem escalated_result_omits_votes:
  "fst (orchestrate split_then_majority (init_orchestrator ''p'' '''' 2))
     = Inr (Escalated 2 [(''A'', 2), (''B'', 1)]
             (phase1_opus_proposes @ [(''Alt_0'', alt_proposal 0)]) True)
   \<and> fst (orchestrate majority_agent (init_orchestrator ''p'' '''' 2))
       = Inr (Escalated 2 [(''A'', 2), (''B'', 1)]
               (phase1_opus_proposes @ [(''Alt_0'', alt_proposal 0)]) True)
   \<and> map (map choice \<circ> round_votes)
         (run_rounds split_then_majority (init_orchestrator ''p'' '''' 2))
       = [[''A'', ''B'', ''C''], [''A'', ''A'', ''B'']]
   \<and> map (map choice \<circ> round_votes)
         (run_rounds majority_agent (init_orchestrator ''p'' '''' 2))
       = [[''A'', ''A'', ''B''], [''A'', ''A'', ''B'']]
   \<and> rounds (snd (orchestrate split_then_majority (init_orchestrator ''p'' '''' 2))) = []"
  by code_simp

text \<open>
  Claim C3, amended. Whenever \<open>orchestrate\<close> returns without consensus, all
  \<open>max_iterations\<close> rounds were run and the escalated result holds \<open>max_iterations\<close>,
  the tally of the last round, the proposal set of the last round, which contains every
  proposal of every round, and \<open>awaiting_human_decision = True\<close>. The orchestrator
  object, \<open>self.rounds\<close> included, is as it was before the call.
\<close>

theorem escalated_result_contents:
  assumes "fst (orchestrate ask self) = Inr r" and "status r = ''escalated''"
  shows "run_rounds ask self \<noteq> []
         \<and> int (length (run_rounds ask self)) = max_iterations self
         \<and> r = Escalated (max_iterations self) (round_tally (last_round ask self))
                 (round_proposals (last_round ask self)) True
         \<and> (\<forall>q \<in> set (run_rounds ask self).
               set (round_proposals q) \<subseteq> set (round_proposals (last_round ask self)))
         \<and> snd (orchestrate ask self) = self"
proof -
  have pos: "0 < max_iterations self"
  proof (rule ccontr)
    assume "\<not> 0 < max_iterations self"
    then have "orchestrate ask self = (Inl UnboundLocalError, self)"
      by (simp add: orchestrate_no_round)
    then show False using assms(1) by simp
  qed
  have nt: "\<not> truthy (round_consensus (last_round ask self))"
  proof
    assume "truthy (round_consensus (last_round ask self))"
    then have "status r = ''consensus''"
      using orchestrate_consensus [OF pos, of ask] assms(1) by auto
    then show False using assms(2) by simp
  qed
  have ne: "run_rounds ask self \<noteq> []"
    using pos by (rule run_rounds_nonempty)
  have len: "int (length (run_rounds ask self)) = max_iterations self"
    using pos nt by (rule orchestrate_escalated(2))
  have out: "orchestrate ask self =
           (Inr (Escalated (max_iterations self) (round_tally (last_round ask self))
                  (round_proposals (last_round ask self)) True),
            self)"
    using pos nt by (rule orchestrate_escalated(1))
  have res: "r = Escalated (max_iterations self) (round_tally (last_round ask self))
                 (round_proposals (last_round ask self)) True"
    using out assms(1) by simp
  have same: "snd (orchestrate ask self) = self"
    using out by simp
  have all: "\<forall>q \<in> set (run_rounds ask self).
               set (round_proposals q) \<subseteq> set (round_proposals (last_round ask self))"
  proof
    fix q assume "q \<in> set (run_rounds ask self)"
    then obtain j where j: "j < length (run_rounds ask self)" and q: "q = run_rounds ask self ! j"
      by (auto simp: in_set_conv_nth)
    have l: "last_round ask self = run_rounds ask self ! (length (run_rounds ask self) - 1)"
      using ne by (simp add: last_conv_nth)
    show "set (round_proposals q) \<subseteq> set (round_proposals (last_round ask self))"
      unfolding q l using j by (intro run_rounds_mono) simp_all
  qed
  show ?thesis
    using ne len res all same by (intro conjI)
qed

theorem escalated_result_contents_witness:
  "fst (orchestrate split_then_majority (init_orchestrator ''p'' '''' 2))
     = Inr (Escalated 2 [(''A'', 2), (''B'', 1)]
             (phase1_opus_proposes @ [(''Alt_0'', alt_proposal 0)]) True)
   \<and> status (Escalated 2 [(''A'', 2), (''B'', 1)]
             (phase1_opus_proposes @ [(''Alt_0'', alt_proposal 0)]) True) = ''escalated''
   \<and> int (length (run_rounds split_then_majority (init_orchestrator ''p'' '''' 2)))
       = max_iterations (init_orchestrator ''p'' '''' 2)
   \<and> snd (orchestrate split_then_majority (init_orchestrator ''p'' '''' 2))
       = init_orchestrator ''p'' '''' 2"
proof -
  have a: "fst (orchestrate split_then_majority (init_orchestrator ''p'' '''' 2))
     = Inr (Escalated 2 [(''A'', 2), (''B'', 1)]
             (phase1_opus_proposes @ [(''Alt_0'', alt_proposal 0)]) True)"
    by code_simp
  have b: "status (Escalated 2 [(''A'', 2), (''B'', 1)]
             (phase1_opus_proposes @ [(''Alt_0'', alt_proposal 0)]) True) = ''escalated''"
    by simp
  note all = escalated_result_contents [OF a b]
  have c: "int (length (run_rounds split_then_majority (init_orchestrator ''p'' '''' 2)))
       = max_iterations (init_orchestrator ''p'' '''' 2)"
    using all by (elim conjE)
  have d: "snd (orchestrate split_then_majority (init_orchestrator ''p'' '''' 2))
       = init_orchestrator ''p'' '''' 2"
    using all by (elim conjE)
  show ?thesis
    using a b c d by (intro conjI)
qed

section \<open>Unanimity in the first round\<close>

text \<open>
  When the three votes of round 0 choose the same label and that label is not the empty
  string, \<open>orchestrate\<close> returns the consensus result with that label as winner,
  iteration 1 and the three votes, and records the winner in \<open>self.final_solution\<close>.
\<close>

lemma first_round_unanimous:
  assumes "0 < max_iterations self"
    and "\<forall>v \<in> set (phase2_vote ask phase1_opus_proposes 0). choice v = l"
    and "l \<noteq> []"
  shows "orchestrate ask self =
           (Inr (Consensus 1 l (map asdict (phase2_vote ask phase1_opus_proposes 0))),
            self\<lparr>final_solution := Some l\<rparr>)"
proof -
  have idxs: "[0 ..< nat (max_iterations self)] = 0 # [1 ..< nat (max_iterations self)]"
    using assms(1) by (simp add: upt_conv_Cons)
  have w: "check_consensus (tally_votes (phase2_vote ask phase1_opus_proposes 0)) = Some l"
    using assms(2) unfolding phase2_vote_three unanimous_check by simp
  then have t: "truthy (check_consensus (tally_votes (phase2_vote ask phase1_opus_proposes 0)))"
    using assms(3) by simp
  show ?thesis
    unfolding orchestrate_def idxs loop_Cons_stop [OF t] using w by simp
qed

text \<open>
  The label of a proposal is never the empty string: in every round of every run, the keys
  of the proposal set are \<open>A\<close>, \<open>B\<close>, \<open>C\<close> and labels \<open>Alt_i\<close>.
\<close>

lemma proposal_labels_nonempty:
  assumes "j < length (run_rounds ask self)"
  shows "[] \<notin> set (keys (proposals_at ask self j))"
proof
  assume "[] \<in> set (keys (proposals_at ask self j))"
  then have "[] \<in> set (keys phase1_opus_proposes) \<union> alt_name ` {..<j}"
    using run_rounds_keys [OF assms] by blast
  then show False
    by (auto simp: keys_def phase1_opus_proposes_def alt_name_def)
qed

text \<open>
  Claim C8. If the run has a first round (\<open>max_iterations\<close> at least one) and the three
  votes of round 0 all choose the same label \<open>l\<close>, then \<open>orchestrate\<close> returns the
  result with status consensus, winner \<open>l\<close>, iteration 1 and the list of the three
  votes of that round, and \<open>self.final_solution\<close> is \<open>l\<close>. A label is the name of a
  proposal, so it is not the empty string (the one string that \<open>if winner:\<close> does not
  take for a winner); in particular every key of the proposal set of round 0 is such a
  label.
\<close>

theorem first_round_unanimity_gives_consensus:
  assumes "0 < max_iterations self"
    and "\<forall>v \<in> set (phase2_vote ask phase1_opus_proposes 0). choice v = l"
    and "l \<noteq> []"
  shows "fst (orchestrate ask self)
           = Inr (Consensus 1 l (map asdict (phase2_vote ask phase1_opus_proposes 0)))
         \<and> status (Consensus 1 l (map asdict (phase2_vote ask phase1_opus_proposes 0)))
             = ''consensus''
         \<and> final_solution (snd (orchestrate ask self)) = Some l
         \<and> round_proposals (hd (run_rounds ask self)) = phase1_opus_proposes
         \<and> round_votes (hd (run_rounds ask self)) = phase2_vote ask phase1_opus_proposes 0
         \<and> length (run_rounds ask self) = 1
         \<and> [] \<notin> set (keys phase1_opus_proposes)"
proof -
  have out: "orchestrate ask self =
           (Inr (Consensus 1 l (map asdict (phase2_vote ask phase1_opus_proposes 0))),
            self\<lparr>final_solution := Some l\<rparr>)"
    using assms by (rule first_round_unanimous)
  have idxs: "[0 ..< nat (max_iterations self)] = 0 # [1 ..< nat (max_iterations self)]"
    using assms(1) by (simp add: upt_conv_Cons)
  have w: "check_consensus (tally_votes (phase2_vote ask phase1_opus_proposes 0)) = Some l"
    using assms(2) unfolding phase2_vote_three unanimous_check by simp
  then have t: "truthy (check_consensus (tally_votes (phase2_vote ask phase1_opus_proposes 0)))"
    using assms(3) by simp
  have rs: "run_rounds ask self =
       [\<lparr>round_iteration = 0, round_proposals = phase1_opus_proposes,
         round_votes = phase2_vote ask phase1_opus_proposes 0,
         round_tally = tally_votes (phase2_vote ask phase1_opus_proposes 0),
         round_consensus = check_consensus (tally_votes (phase2_vote ask phase1_opus_proposes 0))\<rparr>]"
    unfolding run_rounds_def idxs by (rule rounds_of_Cons_stop [OF t])
  have a: "fst (orchestrate ask self)
           = Inr (Consensus 1 l (map asdict (phase2_vote ask phase1_opus_proposes 0)))"
    by (simp add: out)
  have b: "status (Consensus 1 l (map asdict (phase2_vote ask phase1_opus_proposes 0)))
             = ''consensus''"
    by simp
  have c: "final_solution (snd (orchestrate ask self)) = Some l"
    by (simp add: out)
  have d: "round_proposals (hd (run_rounds ask self)) = phase1_opus_proposes"
    by (simp add: rs)
  have e: "round_votes (hd (run_rounds ask self)) = phase2_vote ask phase1_opus_proposes 0"
    by (simp add: rs)
  have f: "length (run_rounds ask self) = 1"
    by (simp add: rs)
  have g: "[] \<notin> set (keys phase1_opus_proposes)"
    by (simp add: keys_def phase1_opus_proposes_def)
  show ?thesis
    using a b c d e f g by (intro conjI)
qed

text \<open>Scenario A of the specification: three votes for \<open>B\<close> in round 0.\<close>

theorem first_round_unanimity_gives_consensus_witness:
  "0 < max_iterations (init_orchestrator ''p'' '''' 5)
   \<and> map choice (phase2_vote unanimous_b phase1_opus_proposes 0) = [''B'', ''B'', ''B'']
   \<and> fst (orchestrate unanimous_b (init_orchestrator ''p'' '''' 5))
       = Inr (Consensus 1 ''B'' (map asdict (phase2_vote unanimous_b phase1_opus_proposes 0)))
   \<and> final_solution (snd (orchestrate unanimous_b (init_orchestrator ''p'' '''' 5))) = Some ''B''
   \<and> length (run_rounds unanimous_b (init_orchestrator ''p'' '''' 5)) = 1"
proof -
  have h: "0 < max_iterations (init_orchestrator ''p'' '''' 5)"
    by (simp add: init_orchestrator_def)
  have v: "map choice (phase2_vote unanimous_b phase1_opus_proposes 0) = [''B'', ''B'', ''B'']"
    by (simp add: phase2_vote_three cast_vote_def unanimous_b_def scripted_def)
  have u: "\<forall>v \<in> set (phase2_vote unanimous_b phase1_opus_proposes 0). choice v = ''B''"
    by (simp add: phase2_vote_three cast_vote_def unanimous_b_def scripted_def)
  have n: "''B'' \<noteq> []" by simp
  note all = first_round_unanimity_gives_consensus [OF h u n]
  have a: "fst (orchestrate unanimous_b (init_orchestrator ''p'' '''' 5))
       = Inr (Consensus 1 ''B'' (map asdict (phase2_vote unanimous_b phase1_opus_proposes 0)))"
    using all by (elim conjE)
  have c: "final_solution (snd (orchestrate unanimous_b (init_orchestrator ''p'' '''' 5))) = Some ''B''"
    using all by (elim conjE)
  have f: "length (run_rounds unanimous_b (init_orchestrator ''p'' '''' 5)) = 1"
    using all by (elim conjE)
  show ?thesis
    using h v a c f by (intro conjI)
qed

text \<open>
  The votes written in the source are three votes for \<open>A\<close>: as it stands, the program
  reaches consensus on \<open>A\<close> in round 0 whenever it runs at least one round.
\<close>

lemma placeholder_run:
  assumes "0 < max_iterations self"
  shows "orchestrate placeholder_agent self =
           (Inr (Consensus 1 ''A'' (map asdict (phase2_vote placeholder_agent phase1_opus_proposes 0))),
            self\<lparr>final_solution := Some ''A''\<rparr>)"
  using assms
  by (rule first_round_unanimous)
     (simp_all add: phase2_vote_three cast_vote_def placeholder_agent_def)

end
